theory Spec2Isabelle
  imports Main "HOL-Library.Word" "HOL-Library.Sublist"
begin

section \<open>Strings of the host language\<close>

text \<open>
  A JavaScript string is a sequence of 16-bit code units. \<open>s[i]\<close>, \<open>s.length\<close>,
  \<open>s.split('')\<close> and \<open>charCodeAt\<close> work on code units; only the string iterator
  (\<open>for (const char of s)\<close>) groups a surrogate pair into one element.
\<close>

type_synonym cu = "16 word"
type_synonym jsstring = "cu list"

definition js :: "string \<Rightarrow> jsstring" where
  "js s = map of_char s"

text \<open>
  White space as \<open>String.prototype.trim\<close> and the regular expression class \<open>\s\<close>
  understand it: the WhiteSpace and LineTerminator code points of ECMAScript.
\<close>

definition is_ws :: "cu \<Rightarrow> bool" where
  "is_ws c \<longleftrightarrow> c = 0x09 \<or> c = 0x0A \<or> c = 0x0B \<or> c = 0x0C \<or> c = 0x0D \<or> c = 0x20
     \<or> c = 0xA0 \<or> c = 0x1680 \<or> (0x2000 \<le> c \<and> c \<le> 0x200A) \<or> c = 0x2028 \<or> c = 0x2029
     \<or> c = 0x202F \<or> c = 0x205F \<or> c = 0x3000 \<or> c = 0xFEFF"

definition trim :: "jsstring \<Rightarrow> jsstring" where
  "trim s = rev (dropWhile is_ws (rev (dropWhile is_ws s)))"

definition is_digit :: "cu \<Rightarrow> bool" where
  "is_digit c \<longleftrightarrow> 48 \<le> unat c \<and> unat c \<le> 57"

definition digit_val :: "cu \<Rightarrow> nat" where
  "digit_val c = unat c - 48"

text \<open>\<open>Array.prototype.join\<close>.\<close>

fun join :: "jsstring \<Rightarrow> jsstring list \<Rightarrow> jsstring" where
  "join sep [] = []"
| "join sep [x] = x"
| "join sep (x # y # ys) = x @ sep @ join sep (y # ys)"

text \<open>
  \<open>Number.prototype.toString\<close> at a position in a string. A string has fewer than \<open>2^53\<close>
  code units, so a position is an integer the host's numbers hold exactly, and the host
  prints it as its plain decimal numeral. This function is used for the positions that
  generateKeyMap stores, and for nothing else: the encoder below is written for any kind of
  number and takes the host's printing function as an argument.
\<close>

fun toString :: "nat \<Rightarrow> jsstring" where
  "toString n = (if n < 10 then [of_nat (48 + n)]
                 else toString (n div 10) @ [of_nat (48 + n mod 10)])"

declare toString.simps [simp del]

text \<open>
  \<open>parseInt(s, 10)\<close>: leading white space is skipped, one sign is accepted, then the
  longest prefix of decimal digits is read and whatever follows is ignored. No digit at
  that place gives NaN, here \<open>None\<close>. The value is kept as an unbounded integer: the
  program only compares it with a string length and uses it as a position when it is at
  most that length, where the floating-point number of the host is exact.
\<close>

definition decimal_value :: "jsstring \<Rightarrow> nat" where
  "decimal_value z = foldl (\<lambda>a d. 10 * a + digit_val d) 0 z"

definition parseInt :: "jsstring \<Rightarrow> int option" where
  "parseInt s =
     (let s1 = dropWhile is_ws s;
          neg = (s1 \<noteq> [] \<and> hd s1 = 0x2D);
          s2 = (if s1 \<noteq> [] \<and> (hd s1 = 0x2B \<or> hd s1 = 0x2D) then tl s1 else s1);
          z = takeWhile is_digit s2
      in if z = [] then None
         else let mathInt = int (decimal_value z)
              in Some (if neg then - mathInt else mathInt))"

text \<open>
  \<open>String.prototype.split\<close> with a string separator: the text is cut at the successive
  leftmost occurrences of the separator, each search starting after the previous
  occurrence. \<open>tok\<close> holds the code units read since the last cut.
\<close>

function split_string :: "jsstring \<Rightarrow> jsstring \<Rightarrow> jsstring \<Rightarrow> jsstring list" where
  "split_string sep tok [] = [tok]"
| "split_string sep tok (c # cs) =
     (if sep \<noteq> [] \<and> prefix sep (c # cs)
      then tok # split_string sep [] (drop (length sep) (c # cs))
      else split_string sep (tok @ [c]) cs)"
  by pat_completeness auto
termination
  by (relation "measure (\<lambda>(sep, tok, s). length s)") auto

definition split_lit :: "jsstring \<Rightarrow> jsstring \<Rightarrow> jsstring list" where
  "split_lit s sep = split_string sep [] s"

text \<open>
  \<open>String.prototype.split\<close> with the regular expression \<open>/\s+/\<close>: the matcher is tried
  at each position in turn; where it matches it takes the whole run of white space.
\<close>

function split_ws_run :: "jsstring \<Rightarrow> jsstring \<Rightarrow> jsstring list" where
  "split_ws_run tok [] = [tok]"
| "split_ws_run tok (c # cs) =
     (if is_ws c then tok # split_ws_run [] (dropWhile is_ws cs)
      else split_ws_run (tok @ [c]) cs)"
  by pat_completeness auto
termination
  by (relation "measure (\<lambda>(tok, s). length s)") (auto simp: length_dropWhile_le less_Suc_eq_le)

definition split_ws :: "jsstring \<Rightarrow> jsstring list" where
  "split_ws s = split_ws_run [] s"

text \<open>
  A \<open>Set\<close> keeps its elements in insertion order; adding a present element changes nothing.
  \<open>Array.from\<close> of the set is that list.
\<close>

definition set_add :: "'a \<Rightarrow> 'a list \<Rightarrow> 'a list" where
  "set_add x s = (if x \<in> set s then s else s @ [x])"

text \<open>The string iterator: a high surrogate followed by a low one is one element.\<close>

definition is_high :: "cu \<Rightarrow> bool" where
  "is_high c \<longleftrightarrow> 0xD800 \<le> c \<and> c \<le> 0xDBFF"

definition is_low :: "cu \<Rightarrow> bool" where
  "is_low c \<longleftrightarrow> 0xDC00 \<le> c \<and> c \<le> 0xDFFF"

fun code_points :: "jsstring \<Rightarrow> jsstring list" where
  "code_points [] = []"
| "code_points [c] = [[c]]"
| "code_points (c # d # rest) =
     (if is_high c \<and> is_low d then [c, d] # code_points rest
      else [c] # code_points (d # rest))"

section \<open>The key\<close>

text \<open>
  The key map is a \<open>Map<string, number>\<close>; its keys are strings, looked up by the
  one-unit string \<open>key[i]\<close>. The type of its numbers is left open (\<open>'n\<close>): a caller may
  pass a map with any numbers in it. The maps generateKeyMap builds hold positions.
\<close>

type_synonym 'n keymap = "jsstring \<rightharpoonup> 'n"

function keymap_loop :: "jsstring \<Rightarrow> nat \<Rightarrow> nat keymap \<Rightarrow> nat keymap" where
  "keymap_loop key i m =
     (if i < length key
      then let char = [key ! i]
           in keymap_loop key (i + 1) (if m char = None then m(char \<mapsto> i + 1) else m)
      else m)"
  by pat_completeness auto
termination
  by (relation "measure (\<lambda>(key, i, m). length key - i)") auto

declare keymap_loop.simps [simp del]

definition generateKeyMap :: "jsstring \<Rightarrow> nat keymap" where
  "generateKeyMap key = keymap_loop key 0 Map.empty"

definition cleanKey :: "jsstring \<Rightarrow> jsstring" where
  "cleanKey key = concat (fold set_add (map (\<lambda>c. [c]) key) [])"

fun dup_loop :: "jsstring list \<Rightarrow> jsstring list \<times> jsstring list \<Rightarrow> jsstring list \<times> jsstring list" where
  "dup_loop [] st = st"
| "dup_loop (char # rest) (seen, duplicates) =
     dup_loop rest (set_add char seen,
                    if char \<in> set seen then set_add char duplicates else duplicates)"

definition getDuplicateChars :: "jsstring \<Rightarrow> jsstring list" where
  "getDuplicateChars key = snd (dup_loop (code_points key) ([], []))"

section \<open>Base64 helpers\<close>

definition is_b64 :: "cu \<Rightarrow> bool" where
  "is_b64 c \<longleftrightarrow> (0x41 \<le> c \<and> c \<le> 0x5A) \<or> (0x61 \<le> c \<and> c \<le> 0x7A) \<or> (0x30 \<le> c \<and> c \<le> 0x39)
     \<or> c = 0x2B \<or> c = 0x2F \<or> c = 0x3D"

text \<open>\<open>/^[A-Za-z0-9+/=]+$/.test\<close>: one or more characters of the class, and nothing else.\<close>

definition b64_regex_test :: "jsstring \<Rightarrow> bool" where
  "b64_regex_test s \<longleftrightarrow> s \<noteq> [] \<and> list_all is_b64 s"

definition sanitizeBase64Input :: "jsstring \<Rightarrow> jsstring" where
  "sanitizeBase64Input str = filter (\<lambda>c. \<not> is_ws c) str"

definition isValidBase64 :: "jsstring \<Rightarrow> bool" where
  "isValidBase64 str =
     (if str = [] then True
      else let clean = filter (\<lambda>c. \<not> is_ws c) str
           in if length clean = 0 then True else b64_regex_test clean)"

section \<open>Encoding\<close>

text \<open>
  The loops carry the array \<open>result\<close> and the flag; the functions return the pair
  of the joined string and the flag.

  The encoder calls \<open>index.toString()\<close> on whatever number the map holds. That function
  belongs to the host, and what it prints for a number that is not a small integer
  (exponent notation from \<open>10^21\<close> on, fractions, NaN) is the host's business: the encoder
  takes it as its first argument \<open>numToString\<close>, for any type of numbers. With the maps
  of generateKeyMap it is \<open>toString\<close>.
\<close>

fun encode_loop ::
  "('n \<Rightarrow> jsstring) \<Rightarrow> 'n keymap \<Rightarrow> jsstring \<Rightarrow> jsstring list \<times> bool \<Rightarrow> jsstring list \<times> bool" where
  "encode_loop numToString keyMap [] st = st"
| "encode_loop numToString keyMap (char # rest) (result, hasUnmapped) =
     (case keyMap [char] of
        Some index \<Rightarrow>
          encode_loop numToString keyMap rest (result @ [numToString index], hasUnmapped)
      | None \<Rightarrow>
          encode_loop numToString keyMap rest
            (result @ [[char]], if trim [char] \<noteq> [] then True else hasUnmapped))"

definition encodeString ::
  "('n \<Rightarrow> jsstring) \<Rightarrow> jsstring \<Rightarrow> 'n keymap \<Rightarrow> jsstring \<Rightarrow> jsstring \<times> bool" where
  "encodeString numToString input keyMap separator =
     (if input = [] then ([], False)
      else let (result, hasUnmapped) = encode_loop numToString keyMap input ([], False)
           in (join separator result, hasUnmapped))"

section \<open>Decoding\<close>

fun decode_continuous :: "jsstring \<Rightarrow> jsstring \<Rightarrow> jsstring list \<times> bool \<Rightarrow> jsstring list \<times> bool" where
  "decode_continuous key [] st = st"
| "decode_continuous key (char # rest) (result, hasErrors) =
     (let code = unat char
      in if code \<ge> 48 \<and> code \<le> 57
         then (case parseInt [char] of
                 Some index \<Rightarrow>
                   if index > 0 \<and> index \<le> int (length key)
                   then decode_continuous key rest (result @ [[key ! nat (index - 1)]], hasErrors)
                   else decode_continuous key rest (result @ [[char]], True)
               | None \<Rightarrow> decode_continuous key rest (result @ [[char]], True))
         else decode_continuous key rest
                (result @ [[char]], if trim [char] \<noteq> [] then True else hasErrors))"

fun decode_parts :: "jsstring \<Rightarrow> jsstring list \<Rightarrow> jsstring list \<times> bool \<Rightarrow> jsstring list \<times> bool" where
  "decode_parts key [] st = st"
| "decode_parts key (part # rest) (result, hasErrors) =
     (if part = [] then decode_parts key rest (result, hasErrors)
      else (case parseInt part of
              Some index \<Rightarrow>
                if index > 0 \<and> index \<le> int (length key)
                then decode_parts key rest (result @ [[key ! nat (index - 1)]], hasErrors)
                else decode_parts key rest (result @ [part], True)
            | None \<Rightarrow> decode_parts key rest (result @ [part], True)))"

definition decodeString :: "jsstring \<Rightarrow> jsstring \<Rightarrow> jsstring \<Rightarrow> jsstring \<times> bool" where
  "decodeString encoded key separator =
     (if encoded = [] \<or> key = [] then ([], False)
      else let (result, hasErrors) =
                 (if separator = [] then decode_continuous key encoded ([], False)
                  else let parts = (if separator = [0x20] then split_ws encoded
                                    else split_lit encoded separator)
                       in decode_parts key parts ([], False))
           in (concat result, hasErrors))"

section \<open>Presets\<close>

definition PRESETS_BASE64 :: jsstring where
  "PRESETS_BASE64 = js ''ABCDEFGHIJKLMNOPQRSTUVWXYZabcdefghijklmnopqrstuvwxyz0123456789+/=:;,-.''"

section \<open>Reference notions the properties are stated with\<close>

text \<open>
  The elements of a list that stand at the position of their first occurrence, in the
  order of the list.
\<close>

definition first_occurrences :: "'a list \<Rightarrow> 'a list" where
  "first_occurrences xs =
     map (\<lambda>i. xs ! i) (filter (\<lambda>i. xs ! i \<notin> set (take i xs)) [0..<length xs])"

text \<open>
  What the continuous mode makes of one character of the encoded text, and whether that
  character is an error, in the words of the specification.
\<close>

definition continuous_piece :: "jsstring \<Rightarrow> cu \<Rightarrow> jsstring" where
  "continuous_piece key c =
     (if is_digit c \<and> 1 \<le> digit_val c \<and> digit_val c \<le> length key
      then [key ! (digit_val c - 1)] else [c])"

definition continuous_error :: "jsstring \<Rightarrow> cu \<Rightarrow> bool" where
  "continuous_error key c \<longleftrightarrow>
     (if is_digit c then \<not> (1 \<le> digit_val c \<and> digit_val c \<le> length key) else \<not> is_ws c)"

text \<open>
  What the separator mode makes of one non-empty token, and whether that token is an
  error.
\<close>

definition token_piece :: "jsstring \<Rightarrow> jsstring \<Rightarrow> jsstring" where
  "token_piece key t =
     (case parseInt t of
        Some index \<Rightarrow> if 1 \<le> index \<and> index \<le> int (length key)
                      then [key ! nat (index - 1)] else t
      | None \<Rightarrow> t)"

definition token_error :: "jsstring \<Rightarrow> jsstring \<Rightarrow> bool" where
  "token_error key t \<longleftrightarrow>
     (case parseInt t of
        Some index \<Rightarrow> \<not> (1 \<le> index \<and> index \<le> int (length key))
      | None \<Rightarrow> True)"

text \<open>
  A token that is an integer numeral as a whole: an optional sign, then decimal digits,
  at least one, and nothing else.
\<close>

definition is_integer_text :: "jsstring \<Rightarrow> bool" where
  "is_integer_text t \<longleftrightarrow>
     (let body = (if t \<noteq> [] \<and> (hd t = 0x2B \<or> hd t = 0x2D) then tl t else t)
      in body \<noteq> [] \<and> list_all is_digit body)"

text \<open>
  The tokens of a text cut at runs of white space: its maximal runs of characters that
  are not white space, in order.
\<close>

function ws_tokens :: "jsstring \<Rightarrow> jsstring list" where
  "ws_tokens s =
     (let r = dropWhile is_ws s
      in if r = [] then []
         else takeWhile (\<lambda>c. \<not> is_ws c) r # ws_tokens (dropWhile (\<lambda>c. \<not> is_ws c) r))"
  by pat_completeness auto
termination
proof (relation "measure length")
  show "wf (measure length)" by simp
next
  fix s r :: jsstring
  assume r: "r = dropWhile is_ws s" and ne: "r \<noteq> []"
  have "\<not> is_ws (hd r)" unfolding r using ne [unfolded r] by (rule hd_dropWhile)
  then have "length (dropWhile (\<lambda>c. \<not> is_ws c) r) < length r"
    using ne by (cases r) (simp_all add: length_dropWhile_le less_Suc_eq_le)
  moreover have "length r \<le> length s" unfolding r by (rule length_dropWhile_le)
  ultimately show "(dropWhile (\<lambda>c. \<not> is_ws c) r, s) \<in> measure length" by simp
qed

declare ws_tokens.simps [simp del]

text \<open>The token the encoder emits for one character under the key map of a key.\<close>

definition key_token :: "jsstring \<Rightarrow> cu \<Rightarrow> jsstring" where
  "key_token K c = (case generateKeyMap K [c] of Some index \<Rightarrow> toString index | None \<Rightarrow> [c])"

section \<open>Empty inputs\<close>

text \<open>
  C8. Encoding the empty input gives the empty result with hasUnmapped false, for every
  key map and separator; decoding the empty text gives the empty result with hasErrors
  false, for every key and separator; decoding any text with the empty key does the same.
\<close>

theorem empty_input_postconditions:
  "encodeString numToString [] keyMap sep = ([], False)
   \<and> decodeString [] key sep = ([], False)
   \<and> decodeString encoded [] sep = ([], False)"
  by (simp add: encodeString_def decodeString_def)

section \<open>The key map\<close>

lemma keymap_loop_keeps:
  "m s = Some v \<Longrightarrow> keymap_loop key i m s = Some v"
proof (induction key i m rule: keymap_loop.induct)
  case (1 key i m)
  show ?case
  proof (cases "i < length key")
    case True
    let ?m' = "if m [key ! i] = None then m([key ! i] \<mapsto> i + 1) else m"
    have "?m' s = Some v" using "1.prems" by auto
    then have "keymap_loop key (i + 1) ?m' s = Some v"
      using "1.IH" [OF True refl] by simp
    then show ?thesis using True by (subst keymap_loop.simps) (simp add: Let_def)
  next
    case False
    then show ?thesis using "1.prems" by (subst keymap_loop.simps) simp
  qed
qed

lemma keymap_loop_first:
  "i \<le> j \<Longrightarrow> j < length key \<Longrightarrow> m [key ! j] = None
   \<Longrightarrow> (\<forall>k. i \<le> k \<and> k < j \<longrightarrow> key ! k \<noteq> key ! j)
   \<Longrightarrow> keymap_loop key i m [key ! j] = Some (j + 1)"
proof (induction key i m rule: keymap_loop.induct)
  case (1 key i m)
  have lt: "i < length key" using "1.prems" by simp
  let ?m' = "if m [key ! i] = None then m([key ! i] \<mapsto> i + 1) else m"
  have unfold: "keymap_loop key i m = keymap_loop key (i + 1) ?m'"
    using lt by (subst keymap_loop.simps) (simp add: Let_def)
  show ?case
  proof (cases "i = j")
    case True
    then have "?m' [key ! j] = Some (j + 1)" using "1.prems" by simp
    then show ?thesis unfolding unfold by (rule keymap_loop_keeps)
  next
    case False
    then have ne: "key ! i \<noteq> key ! j" and le: "i + 1 \<le> j" using "1.prems" by auto
    have none: "?m' [key ! j] = None" using ne "1.prems"(3) by auto
    have rest: "\<forall>k. i + 1 \<le> k \<and> k < j \<longrightarrow> key ! k \<noteq> key ! j" using "1.prems"(4) by auto
    show ?thesis unfolding unfold
      using "1.IH" [OF lt refl le "1.prems"(2) none rest] .
  qed
qed

text \<open>
  C5. generateKeyMap gives each character of the key its 1-based position of first
  occurrence: when position \<open>i\<close> of the key holds a character that no earlier position
  holds, the map sends that character to \<open>i + 1\<close>; an entry the map already has is never
  changed by the rest of the loop. For the key AAB the map sends A to 1 and B to 3.
\<close>

theorem generateKeyMap_first_occurrence:
  "(\<forall>i < length K. (\<forall>j < i. K ! j \<noteq> K ! i) \<longrightarrow> generateKeyMap K [K ! i] = Some (i + 1))
   \<and> (\<forall>i m s v. m s = Some v \<longrightarrow> keymap_loop K i m s = Some v)
   \<and> generateKeyMap (js ''AAB'') (js ''A'') = Some 1
   \<and> generateKeyMap (js ''AAB'') (js ''B'') = Some 3"
proof (intro conjI allI impI)
  fix i assume "i < length K" "\<forall>j < i. K ! j \<noteq> K ! i"
  then show "generateKeyMap K [K ! i] = Some (i + 1)"
    unfolding generateKeyMap_def by (intro keymap_loop_first) auto
next
  fix i :: nat and m :: "nat keymap" and s v assume "m s = Some v"
  then show "keymap_loop K i m s = Some v" by (rule keymap_loop_keeps)
next
  show "generateKeyMap (js ''AAB'') (js ''A'') = Some 1" by code_simp
next
  show "generateKeyMap (js ''AAB'') (js ''B'') = Some 3" by code_simp
qed

theorem generateKeyMap_first_occurrence_witness:
  "generateKeyMap (js ''ABCA'') [js ''ABCA'' ! 2] = Some 3"
proof -
  have len: "2 < length (js ''ABCA'')" by (simp add: js_def)
  have first: "\<forall>j < 2. js ''ABCA'' ! j \<noteq> js ''ABCA'' ! 2"
    by (simp add: js_def less_Suc_eq numeral_2_eq_2)
  from generateKeyMap_first_occurrence [of "js ''ABCA''"] len first
  show ?thesis by fastforce
qed

section \<open>Cleaning a key and finding its duplicates\<close>

lemma set_fold_set_add: "set (fold set_add xs s) = set xs \<union> set s"
  by (induction xs arbitrary: s) (auto simp: set_add_def)

lemma first_occurrences_snoc:
  "first_occurrences (xs @ [x]) = first_occurrences xs @ (if x \<in> set xs then [] else [x])"
proof -
  let ?n = "length xs"
  let ?P = "\<lambda>i. (xs @ [x]) ! i \<notin> set (take i (xs @ [x]))"
  have f: "filter ?P [0..<?n] = filter (\<lambda>i. xs ! i \<notin> set (take i xs)) [0..<?n]"
    by (rule filter_cong) (auto simp: nth_append)
  have m: "map (\<lambda>i. (xs @ [x]) ! i) (filter (\<lambda>i. xs ! i \<notin> set (take i xs)) [0..<?n])
           = map (\<lambda>i. xs ! i) (filter (\<lambda>i. xs ! i \<notin> set (take i xs)) [0..<?n])"
    by (rule map_cong) (auto simp: nth_append)
  have "first_occurrences (xs @ [x])
        = map (\<lambda>i. (xs @ [x]) ! i) (filter ?P [0..<?n])
          @ map (\<lambda>i. (xs @ [x]) ! i) (filter ?P [?n])"
    by (simp only: first_occurrences_def length_append_singleton upt_Suc_append [OF le0]
          filter_append map_append)
  also have "map (\<lambda>i. (xs @ [x]) ! i) (filter ?P [0..<?n]) = first_occurrences xs"
    by (simp only: f m first_occurrences_def)
  also have "map (\<lambda>i. (xs @ [x]) ! i) (filter ?P [?n]) = (if x \<in> set xs then [] else [x])"
    by simp
  finally show ?thesis .
qed

lemma cleanKey_snoc:
  "cleanKey (key @ [c]) = cleanKey key @ (if c \<in> set key then [] else [c])"
proof -
  have "[c] \<in> set (fold set_add (map (\<lambda>c. [c]) key) []) \<longleftrightarrow> c \<in> set key"
    by (auto simp: set_fold_set_add)
  then show ?thesis by (simp add: cleanKey_def set_add_def)
qed

lemma cleanKey_Nil: "cleanKey [] = []"
  by (simp add: cleanKey_def)

lemma cleanKey_first_occurrences: "cleanKey key = first_occurrences key"
proof (induction key rule: rev_induct)
  case Nil
  show ?case by (simp add: cleanKey_def first_occurrences_def)
next
  case (snoc c key)
  then show ?case by (simp only: cleanKey_snoc first_occurrences_snoc)
qed

lemma set_cleanKey: "set (cleanKey key) = set key"
  by (induction key rule: rev_induct) (auto simp: cleanKey_Nil cleanKey_snoc)

lemma distinct_cleanKey: "distinct (cleanKey key)"
  by (induction key rule: rev_induct) (auto simp: cleanKey_Nil cleanKey_snoc set_cleanKey)

lemma cleanKey_distinct: "distinct key \<Longrightarrow> cleanKey key = key"
  by (induction key rule: rev_induct) (auto simp: cleanKey_Nil cleanKey_snoc)

lemma concat_code_points: "concat (code_points s) = s"
  by (induction s rule: code_points.induct) auto

lemma code_points_nonempty: "[] \<notin> set (code_points s)"
  by (induction s rule: code_points.induct) auto

lemma distinct_code_points:
  assumes "distinct s"
  shows "distinct (code_points s)"
proof -
  have "distinct (concat (code_points s))" using assms by (simp add: concat_code_points)
  then have "distinct (removeAll [] (code_points s))" by (simp add: distinct_concat_iff)
  then show ?thesis using code_points_nonempty [of s] by simp
qed

lemma dup_loop_distinct:
  "distinct cps \<Longrightarrow> set cps \<inter> set seen = {} \<Longrightarrow> snd (dup_loop cps (seen, dups)) = dups"
proof (induction cps arbitrary: seen dups)
  case Nil
  show ?case by simp
next
  case (Cons char rest)
  have "char \<notin> set seen" using Cons.prems by auto
  moreover have "set rest \<inter> set (set_add char seen) = {}"
    using Cons.prems by (auto simp: set_add_def)
  moreover have "distinct rest" using Cons.prems by simp
  ultimately show ?case using Cons.IH by simp
qed

lemma getDuplicateChars_distinct: "distinct key \<Longrightarrow> getDuplicateChars key = []"
  unfolding getDuplicateChars_def
  by (rule dup_loop_distinct) (simp_all add: distinct_code_points)

text \<open>
  C6. cleanKey keeps exactly the characters that stand at their first occurrence, in the
  order of the key; cleaning a cleaned key changes nothing; and a cleaned key has no
  duplicate characters, for every key.
\<close>

theorem cleanKey_idempotent_no_duplicates:
  "cleanKey K = first_occurrences K
   \<and> cleanKey (cleanKey K) = cleanKey K
   \<and> getDuplicateChars (cleanKey K) = []"
  by (simp add: cleanKey_first_occurrences [symmetric] cleanKey_distinct
        getDuplicateChars_distinct distinct_cleanKey)

theorem cleanKey_idempotent_no_duplicates_witness:
  "cleanKey (js ''AAB'') = js ''AB''
   \<and> cleanKey (cleanKey (js ''AAB'')) = js ''AB''
   \<and> getDuplicateChars (js ''AB'') = []"
proof -
  have c: "cleanKey (js ''AAB'') = js ''AB''" by code_simp
  have "cleanKey (cleanKey (js ''AAB'')) = cleanKey (js ''AAB'')
        \<and> getDuplicateChars (cleanKey (js ''AAB'')) = []"
    using cleanKey_idempotent_no_duplicates [of "js ''AAB''"] by blast
  then show ?thesis using c by simp
qed

section \<open>The default key\<close>

text \<open>
  C10. The built-in default key has no duplicate characters: getDuplicateChars finds none
  in it and cleanKey returns it unchanged.
\<close>

theorem presets_base64_duplicate_free:
  "PRESETS_BASE64 =
     js ''ABCDEFGHIJKLMNOPQRSTUVWXYZabcdefghijklmnopqrstuvwxyz0123456789+/=:;,-.''
   \<and> getDuplicateChars PRESETS_BASE64 = []
   \<and> cleanKey PRESETS_BASE64 = PRESETS_BASE64
   \<and> distinct PRESETS_BASE64"
proof -
  have d: "distinct PRESETS_BASE64" by code_simp
  show ?thesis
    using d by (simp add: getDuplicateChars_distinct cleanKey_distinct) (simp add: PRESETS_BASE64_def)
qed

section \<open>The Base64 validator\<close>

text \<open>
  C9. isValidBase64 is true exactly for the strings that are empty or that, once every
  white-space character is removed, hold only characters of A-Z, a-z, 0-9, plus, slash
  and the equals sign. It accepts SGVsbG8= followed by a newline and rejects Hello!.
\<close>

theorem isValidBase64_characterisation:
  "(isValidBase64 s \<longleftrightarrow> s = [] \<or> (\<forall>c \<in> set (filter (\<lambda>c. \<not> is_ws c) s). is_b64 c))
   \<and> isValidBase64 (js ''SGVsbG8='' @ [0x0A])
   \<and> \<not> isValidBase64 (js ''Hello!'')"
proof (intro conjI)
  show "isValidBase64 s \<longleftrightarrow> s = [] \<or> (\<forall>c \<in> set (filter (\<lambda>c. \<not> is_ws c) s). is_b64 c)"
    by (auto simp: isValidBase64_def b64_regex_test_def Let_def list_all_iff filter_empty_conv)
  show "isValidBase64 (js ''SGVsbG8='' @ [0x0A])" by code_simp
  show "\<not> isValidBase64 (js ''Hello!'')" by code_simp
qed

theorem isValidBase64_characterisation_witness:
  "isValidBase64 (js ''QQ== QQ'')"
proof -
  have "\<forall>c \<in> set (filter (\<lambda>c. \<not> is_ws c) (js ''QQ== QQ'')). is_b64 c" by code_simp
  with isValidBase64_characterisation [of "js ''QQ== QQ''"] show ?thesis by blast
qed

section \<open>The encoder\<close>

lemma trim_single: "trim [c] \<noteq> [] \<longleftrightarrow> \<not> is_ws c"
  by (simp add: trim_def)

lemma unat_digit_unit: "d < 10 \<Longrightarrow> unat (of_nat (48 + d) :: cu) = 48 + d"
  by (rule of_nat_inverse [OF refl]) simp

lemma unat_digit_unit_sum: "d < 10 \<Longrightarrow> unat (48 + of_nat d :: cu) = 48 + d"
  using unat_digit_unit [of d] by simp

lemma decimal_value_snoc: "decimal_value (ds @ [d]) = 10 * decimal_value ds + digit_val d"
  by (simp add: decimal_value_def)

lemma toString_digits: "toString n \<noteq> [] \<and> list_all is_digit (toString n)"
proof (induction n rule: toString.induct)
  case (1 n)
  show ?case
  proof (cases "n < 10")
    case True
    then show ?thesis
      by (subst toString.simps, subst (2) toString.simps)
         (simp add: is_digit_def unat_digit_unit_sum)
  next
    case False
    have "n mod 10 < 10" by simp
    then have "is_digit (of_nat (48 + n mod 10))"
      by (simp only: is_digit_def unat_digit_unit) simp
    then show ?thesis
      using False "1.IH" [OF False]
      by (subst toString.simps, subst (2) toString.simps) simp
  qed
qed

lemma decimal_value_toString: "decimal_value (toString n) = n"
proof (induction n rule: toString.induct)
  case (1 n)
  show ?case
  proof (cases "n < 10")
    case True
    then show ?thesis
      by (subst toString.simps) (simp add: decimal_value_def digit_val_def unat_digit_unit_sum)
  next
    case False
    have "n mod 10 < 10" by simp
    then have "digit_val (of_nat (48 + n mod 10)) = n mod 10"
      by (simp only: digit_val_def unat_digit_unit)
    then show ?thesis
      using False "1.IH" [OF False]
      by (subst toString.simps) (simp add: decimal_value_snoc)
  qed
qed

lemma encode_loop_tokens:
  "encode_loop numToString keyMap input (result, hasUnmapped) =
     (result @ map (\<lambda>c. case keyMap [c] of Some index \<Rightarrow> numToString index | None \<Rightarrow> [c]) input,
      hasUnmapped \<or> (\<exists>c \<in> set input. keyMap [c] = None \<and> \<not> is_ws c))"
proof (induction input arbitrary: result hasUnmapped)
  case Nil
  show ?case by simp
next
  case (Cons char rest)
  show ?case
  proof (cases "keyMap [char]")
    case None
    then show ?thesis using Cons.IH by (auto simp: trim_single)
  next
    case (Some index)
    then show ?thesis using Cons.IH by auto
  qed
qed



section \<open>Decoding without a separator\<close>

lemma digit_not_ws: "is_digit c \<Longrightarrow> \<not> is_ws c"
  by (auto simp: is_digit_def is_ws_def word_le_nat_alt)

lemma digit_not_sign: "is_digit c \<Longrightarrow> c \<noteq> 0x2B \<and> c \<noteq> 0x2D"
  by (auto simp: is_digit_def)

lemma parseInt_digit: "is_digit c \<Longrightarrow> parseInt [c] = Some (int (digit_val c))"
  using digit_not_ws [of c] digit_not_sign [of c] by (simp add: parseInt_def decimal_value_def)

lemma decode_continuous_units:
  "decode_continuous key encoded (result, hasErrors) =
     (result @ map (continuous_piece key) encoded,
      hasErrors \<or> (\<exists>c \<in> set encoded. continuous_error key c))"
proof (induction encoded arbitrary: result hasErrors)
  case Nil
  show ?case by simp
next
  case (Cons char rest)
  show ?case
  proof (cases "is_digit char")
    case True
    have n: "nat (int (digit_val char) - 1) = digit_val char - 1" by simp
    from True have "48 \<le> unat char \<and> unat char \<le> 57" by (simp add: is_digit_def)
    then show ?thesis
      using True Cons.IH by (auto simp: parseInt_digit continuous_piece_def continuous_error_def n)
  next
    case False
    then have "\<not> (48 \<le> unat char \<and> unat char \<le> 57)" by (simp add: is_digit_def)
    then show ?thesis
      using False Cons.IH by (auto simp: continuous_piece_def continuous_error_def trim_single)
  qed
qed

text \<open>
  C4. With the empty separator, a non-empty text and a non-empty key, decodeString reads
  the text one character at a time. A digit 0-9 is a one-digit index: inside 1..length of
  the key it gives the key character at that position, otherwise the digit stays and
  hasErrors is set. Any other character stays, and sets hasErrors only when it is not
  white space. With the key XYZ the text 12a3 gives XYaZ and hasErrors true.
\<close>

theorem decodeString_continuous_mode:
  "encoded \<noteq> [] \<Longrightarrow> key \<noteq> [] \<Longrightarrow>
   decodeString encoded key [] =
     (concat (map (continuous_piece key) encoded), \<exists>c \<in> set encoded. continuous_error key c)
   \<and> decodeString (js ''12a3'') (js ''XYZ'') [] = (js ''XYaZ'', True)"
proof
  assume "encoded \<noteq> []" "key \<noteq> []"
  then show "decodeString encoded key [] =
     (concat (map (continuous_piece key) encoded), \<exists>c \<in> set encoded. continuous_error key c)"
    by (simp add: decodeString_def decode_continuous_units)
  show "decodeString (js ''12a3'') (js ''XYZ'') [] = (js ''XYaZ'', True)"
    by code_simp
qed

theorem decodeString_continuous_mode_witness:
  "js ''3 0'' \<noteq> [] \<and> js ''XYZ'' \<noteq> [] \<and> decodeString (js ''3 0'') (js ''XYZ'') [] = (js ''Z 0'', True)"
proof -
  have e: "js ''3 0'' \<noteq> []" and k: "js ''XYZ'' \<noteq> []" by (simp_all add: js_def)
  have r: "concat (map (continuous_piece (js ''XYZ'')) (js ''3 0'')) = js ''Z 0''" by code_simp
  have f: "\<exists>c \<in> set (js ''3 0''). continuous_error (js ''XYZ'') c" by code_simp
  from decodeString_continuous_mode [OF e k] show ?thesis using e k r f by simp
qed

section \<open>Decoding with a separator\<close>

lemma decode_parts_tokens:
  "decode_parts key parts (result, hasErrors) =
     (result @ map (token_piece key) (filter (\<lambda>t. t \<noteq> []) parts),
      hasErrors \<or> (\<exists>t \<in> set parts. t \<noteq> [] \<and> token_error key t))"
proof (induction parts arbitrary: result hasErrors)
  case Nil
  show ?case by simp
next
  case (Cons part rest)
  show ?case
  proof (cases "part = []")
    case True
    then show ?thesis using Cons.IH by simp
  next
    case False
    show ?thesis
    proof (cases "parseInt part")
      case None
      then show ?thesis using False Cons.IH by (auto simp: token_piece_def token_error_def)
    next
      case (Some index)
      then show ?thesis using False Cons.IH by (auto simp: token_piece_def token_error_def)
    qed
  qed
qed

lemma decode_parts_skips_empty:
  "decode_parts key parts st = decode_parts key (filter (\<lambda>t. t \<noteq> []) parts) st"
proof (cases st)
  case (Pair result hasErrors)
  have "filter (\<lambda>t. t \<noteq> []) (filter (\<lambda>t. t \<noteq> []) parts) = filter (\<lambda>t. t \<noteq> []) parts"
    by simp
  then show ?thesis unfolding Pair decode_parts_tokens by auto
qed

lemma parseInt_digits_prefix:
  assumes ne: "ds \<noteq> []" and dig: "list_all is_digit ds"
    and rest: "rest = [] \<or> \<not> is_digit (hd rest)"
  shows "parseInt (ds @ rest) = Some (int (decimal_value ds))"
proof -
  from ne obtain d ds' where ds: "ds = d # ds'" by (cases ds) auto
  have d: "is_digit d" using dig ds by simp
  have nws: "\<not> is_ws d" using d by (rule digit_not_ws)
  have nsign: "d \<noteq> 0x2B" "d \<noteq> 0x2D" using d by (auto simp: is_digit_def)
  have tw: "takeWhile is_digit (ds @ rest) = ds"
  proof -
    have "takeWhile is_digit rest = []" using rest by (cases rest) auto
    moreover have "\<forall>c \<in> set ds. is_digit c" using dig by (simp add: list_all_iff)
    ultimately show ?thesis by (simp add: takeWhile_append2)
  qed
  have dw: "dropWhile is_ws (ds @ rest) = ds @ rest" using nws ds by simp
  show ?thesis
    unfolding parseInt_def dw using tw ne nsign ds by (simp add: Let_def)
qed

lemma parseInt_white_space_sign_and_failure:
  "parseInt (js '' -12x'') = Some (- 12) \<and> parseInt (js ''+7'') = Some 7
   \<and> parseInt (js ''x1'') = None \<and> parseInt (js ''- 1'') = None \<and> parseInt (js ''--1'') = None"
  by code_simp

text \<open>
  What separator mode does with the parts of the split text: every non-empty part is read
  by parseInt; a value inside 1..length of the key appends the key character at that
  position; a value outside that range, or a failed parse, appends the part unchanged and
  sets hasErrors. parseInt reads the digits a part starts with and ignores what follows
  them. With the key ABC, the text 1 2 5 and a space as separator the result is AB5 and
  hasErrors is true.
\<close>

lemma separator_mode_tokens:
  "encoded \<noteq> [] \<Longrightarrow> key \<noteq> [] \<Longrightarrow> sep \<noteq> [] \<Longrightarrow>
   parts = (if sep = [0x20] then split_ws encoded else split_lit encoded sep) \<Longrightarrow>
   decodeString encoded key sep =
     (concat (map (token_piece key) (filter (\<lambda>t. t \<noteq> []) parts)),
      \<exists>t \<in> set parts. t \<noteq> [] \<and> token_error key t)
   \<and> (\<forall>ds rest. ds \<noteq> [] \<and> list_all is_digit ds \<and> (rest = [] \<or> \<not> is_digit (hd rest))
          \<longrightarrow> parseInt (ds @ rest) = Some (int (decimal_value ds)))
   \<and> decodeString (js ''1 2 5'') (js ''ABC'') (js '' '') = (js ''AB5'', True)"
proof (intro conjI allI impI)
  assume "encoded \<noteq> []" "key \<noteq> []" "sep \<noteq> []"
    and "parts = (if sep = [0x20] then split_ws encoded else split_lit encoded sep)"
  then show "decodeString encoded key sep =
     (concat (map (token_piece key) (filter (\<lambda>t. t \<noteq> []) parts)),
      \<exists>t \<in> set parts. t \<noteq> [] \<and> token_error key t)"
    by (simp add: decodeString_def decode_parts_tokens Let_def)
next
  fix ds rest :: jsstring
  assume "ds \<noteq> [] \<and> list_all is_digit ds \<and> (rest = [] \<or> \<not> is_digit (hd rest))"
  then show "parseInt (ds @ rest) = Some (int (decimal_value ds))"
    by (intro parseInt_digits_prefix) simp_all
next
  show "decodeString (js ''1 2 5'') (js ''ABC'') (js '' '') = (js ''AB5'', True)"
    by code_simp
qed

text \<open>
  C2. In separator mode a token that is not a valid integer is to be appended unchanged,
  with hasErrors set. The code does not do this for a token that starts with digits and
  goes on with other text: with the key ABC and a space as separator, the token 1x is not
  an integer numeral, yet it decodes to A, the x is lost and hasErrors stays false. The
  continuous mode, on the same text and key, keeps the x and sets hasErrors.
\<close>

theorem decodeString_trailing_text_accepted:
  "\<not> is_integer_text (js ''1x'')
   \<and> decodeString (js ''1x'') (js ''ABC'') (js '' '') = (js ''A'', False)
   \<and> decodeString (js ''1x'') (js ''ABC'') [] = (js ''Ax'', True)"
  by code_simp

section \<open>Splitting the encoded text\<close>

lemma ws_tokens_Nil: "ws_tokens [] = []"
  by (subst ws_tokens.simps) simp

lemma ws_tokens_dropWhile: "ws_tokens (dropWhile is_ws s) = ws_tokens s"
  by (subst ws_tokens.simps, subst (2) ws_tokens.simps) (simp add: dropWhile_idem)

lemma ws_tokens_ws_Cons: "is_ws c \<Longrightarrow> ws_tokens (c # s) = ws_tokens s"
  using ws_tokens_dropWhile [of "c # s"] ws_tokens_dropWhile [of s] by simp

lemma ws_tokens_token:
  assumes ne: "tok \<noteq> []" and free: "\<forall>c \<in> set tok. \<not> is_ws c"
    and s: "s = [] \<or> is_ws (hd s)"
  shows "ws_tokens (tok @ s) = tok # ws_tokens s"
proof -
  from ne obtain d tok' where tok: "tok = d # tok'" by (cases tok) auto
  have dw: "dropWhile is_ws (tok @ s) = tok @ s" using free tok by simp
  have s1: "takeWhile (\<lambda>c. \<not> is_ws c) s = []" using s by (cases s) auto
  have s2: "dropWhile (\<lambda>c. \<not> is_ws c) s = s" using s by (cases s) auto
  have tw: "takeWhile (\<lambda>c. \<not> is_ws c) (tok @ s) = tok"
    using free s1 by (simp add: takeWhile_append2)
  have dr: "dropWhile (\<lambda>c. \<not> is_ws c) (tok @ s) = s"
    using free s2 by (simp add: dropWhile_append2)
  show ?thesis
    by (subst ws_tokens.simps) (simp add: dw tw dr Let_def ne)
qed

lemma split_ws_run_tokens:
  "(\<forall>c \<in> set tok. \<not> is_ws c)
   \<Longrightarrow> filter (\<lambda>t. t \<noteq> []) (split_ws_run tok s) = ws_tokens (tok @ s)"
proof (induction tok s rule: split_ws_run.induct)
  case (1 tok)
  show ?case
  proof (cases "tok = []")
    case True
    then show ?thesis by (simp add: ws_tokens_Nil)
  next
    case False
    then show ?thesis using ws_tokens_token [of tok "[]"] "1.prems" by (simp add: ws_tokens_Nil)
  qed
next
  case (2 tok c cs)
  show ?case
  proof (cases "is_ws c")
    case True
    have rest: "filter (\<lambda>t. t \<noteq> []) (split_ws_run [] (dropWhile is_ws cs)) = ws_tokens cs"
      using "2.IH"(1) [OF True] by (simp add: ws_tokens_dropWhile)
    show ?thesis
    proof (cases "tok = []")
      case True
      then show ?thesis using \<open>is_ws c\<close> rest by (simp add: ws_tokens_ws_Cons)
    next
      case False
      have "ws_tokens (tok @ c # cs) = tok # ws_tokens (c # cs)"
        using False "2.prems" \<open>is_ws c\<close> by (intro ws_tokens_token) simp_all
      then show ?thesis using False \<open>is_ws c\<close> rest by (simp add: ws_tokens_ws_Cons)
    qed
  next
    case False
    have "\<forall>x \<in> set (tok @ [c]). \<not> is_ws x" using "2.prems" False by simp
    from "2.IH"(2) [OF False this] show ?thesis using False by simp
  qed
qed

lemma split_string_nonempty: "split_string sep tok s \<noteq> []"
  by (induction sep tok s rule: split_string.induct) auto

lemma join_Cons: "ts \<noteq> [] \<Longrightarrow> join sep (t # ts) = t @ sep @ join sep ts"
  by (cases ts) simp_all

lemma join_split_string: "join sep (split_string sep tok s) = tok @ s"
proof (induction sep tok s rule: split_string.induct)
  case (1 sep tok)
  show ?case by simp
next
  case (2 sep tok c cs)
  show ?case
  proof (cases "sep \<noteq> [] \<and> prefix sep (c # cs)")
    case True
    then obtain zs where zs: "c # cs = sep @ zs" by (auto simp: prefix_def)
    have "join sep (split_string sep [] (drop (length sep) (c # cs))) = drop (length sep) (c # cs)"
      using "2.IH"(1) [OF True] by simp
    also have "\<dots> = zs" by (simp only: zs) simp
    finally have "join sep (tok # split_string sep [] (drop (length sep) (c # cs))) = tok @ sep @ zs"
      by (simp add: join_Cons split_string_nonempty)
    moreover have "split_string sep tok (c # cs)
                   = tok # split_string sep [] (drop (length sep) (c # cs))"
      using True by simp
    moreover have "tok @ sep @ zs = tok @ c # cs" using zs by simp
    ultimately show ?thesis by simp
  next
    case False
    then show ?thesis using "2.IH"(2) [OF False] by auto
  qed
qed

lemma split_string_no_separator_inside:
  "sep \<noteq> [] \<Longrightarrow> (\<forall>ps ss. tok = ps @ ss \<and> ss \<noteq> [] \<longrightarrow> \<not> prefix sep (ss @ s))
   \<Longrightarrow> \<forall>t \<in> set (split_string sep tok s). \<not> sublist sep t"
proof (induction sep tok s rule: split_string.induct)
  case (1 sep tok)
  have "\<not> sublist sep tok"
  proof
    assume "sublist sep tok"
    then obtain ps ss where t: "tok = ps @ sep @ ss" by (auto simp: sublist_def)
    then have "tok = ps @ (sep @ ss) \<and> sep @ ss \<noteq> []" using "1.prems"(1) by simp
    then have "\<not> prefix sep ((sep @ ss) @ [])" using "1.prems"(2) by blast
    then show False by simp
  qed
  then show ?case by simp
next
  case (2 sep tok c cs)
  show ?case
  proof (cases "sep \<noteq> [] \<and> prefix sep (c # cs)")
    case True
    have "\<not> sublist sep tok"
    proof
      assume "sublist sep tok"
      then obtain ps ss where t: "tok = ps @ sep @ ss" by (auto simp: sublist_def)
      then have "tok = ps @ (sep @ ss) \<and> sep @ ss \<noteq> []" using "2.prems"(1) by simp
      then have "\<not> prefix sep ((sep @ ss) @ c # cs)" using "2.prems"(2) by blast
      then show False by simp
    qed
    moreover have "\<forall>t \<in> set (split_string sep [] (drop (length sep) (c # cs))). \<not> sublist sep t"
      using "2.IH"(1) [OF True "2.prems"(1)] by simp
    ultimately show ?thesis using True by simp
  next
    case False
    then have np: "\<not> prefix sep (c # cs)" using "2.prems"(1) by simp
    have inv: "\<forall>ps ss. tok @ [c] = ps @ ss \<and> ss \<noteq> [] \<longrightarrow> \<not> prefix sep (ss @ cs)"
    proof (intro allI impI)
      fix ps ss :: jsstring
      assume a: "tok @ [c] = ps @ ss \<and> ss \<noteq> []"
      then obtain ss0 x where ss: "ss = ss0 @ [x]" by (cases ss rule: rev_cases) auto
      with a have eq: "tok = ps @ ss0" and x: "x = c" by auto
      show "\<not> prefix sep (ss @ cs)"
      proof (cases "ss0 = []")
        case True
        then show ?thesis using ss x np by simp
      next
        case False
        then have "\<not> prefix sep (ss0 @ c # cs)" using "2.prems"(2) eq by blast
        then show ?thesis using ss x by simp
      qed
    qed
    have "split_string sep tok (c # cs) = split_string sep (tok @ [c]) cs"
      using np by simp
    then show ?thesis using "2.IH"(2) [OF False "2.prems"(1) inv] by simp
  qed
qed

text \<open>
  C7. In separator mode, with a single space as separator the text is cut at every run
  of white space: the non-empty parts are the maximal runs of characters that are not
  white space. With any other separator the text is cut at literal occurrences of the
  separator: joining the parts with the separator gives the text back, and no part holds
  the separator. Empty parts are skipped: decoding the parts and decoding the non-empty
  parts give the same result and the same flag.
\<close>

theorem decodeString_split_tokens:
  "encoded \<noteq> [] \<Longrightarrow> key \<noteq> [] \<Longrightarrow> sep \<noteq> [] \<Longrightarrow>
   decodeString encoded key sep =
     (let (result, hasErrors) =
        decode_parts key (if sep = [0x20] then ws_tokens encoded
                          else filter (\<lambda>t. t \<noteq> []) (split_lit encoded sep)) ([], False)
      in (concat result, hasErrors))
   \<and> filter (\<lambda>t. t \<noteq> []) (split_ws encoded) = ws_tokens encoded
   \<and> join sep (split_lit encoded sep) = encoded
   \<and> (\<forall>t \<in> set (split_lit encoded sep). \<not> sublist sep t)
   \<and> (\<forall>parts st. decode_parts key parts st = decode_parts key (filter (\<lambda>t. t \<noteq> []) parts) st)"
proof (intro conjI allI)
  assume e: "encoded \<noteq> []" and k: "key \<noteq> []" and s: "sep \<noteq> []"
  show ws: "filter (\<lambda>t. t \<noteq> []) (split_ws encoded) = ws_tokens encoded"
    unfolding split_ws_def using split_ws_run_tokens [of "[]" encoded] by simp
  show "join sep (split_lit encoded sep) = encoded"
    unfolding split_lit_def by (simp add: join_split_string)
  show "\<forall>t \<in> set (split_lit encoded sep). \<not> sublist sep t"
    unfolding split_lit_def using s by (intro split_string_no_separator_inside) simp_all
  show "decodeString encoded key sep =
     (let (result, hasErrors) =
        decode_parts key (if sep = [0x20] then ws_tokens encoded
                          else filter (\<lambda>t. t \<noteq> []) (split_lit encoded sep)) ([], False)
      in (concat result, hasErrors))"
  proof (cases "sep = [0x20]")
    case True
    have "decode_parts key (split_ws encoded) ([], False)
          = decode_parts key (ws_tokens encoded) ([], False)"
      by (subst decode_parts_skips_empty) (simp only: ws)
    then show ?thesis using True e k by (simp add: decodeString_def Let_def)
  next
    case False
    have "decode_parts key (split_lit encoded sep) ([], False)
          = decode_parts key (filter (\<lambda>t. t \<noteq> []) (split_lit encoded sep)) ([], False)"
      by (rule decode_parts_skips_empty)
    then show ?thesis using False e k s by (simp add: decodeString_def Let_def)
  qed
next
  fix parts st
  show "decode_parts key parts st = decode_parts key (filter (\<lambda>t. t \<noteq> []) parts) st"
    by (rule decode_parts_skips_empty)
qed

theorem decodeString_split_tokens_witness:
  "decodeString (js '' 1  2 '' @ [0x0A] @ js ''3'') (js ''ABC'') (js '' '') = (js ''ABC'', False)
   \<and> decodeString (js '',1,,2 ,3'') (js ''ABC'') (js '','') = (js ''ABC'', False)
   \<and> join (js '','') (split_lit (js '',1,,2 ,3'') (js '','')) = js '',1,,2 ,3''"
proof -
  let ?e1 = "js '' 1  2 '' @ [0x0A] @ js ''3''" and ?e2 = "js '',1,,2 ,3''"
  let ?k = "js ''ABC''"
  have e1: "?e1 \<noteq> []" and e2: "?e2 \<noteq> []" and k: "?k \<noteq> []"
    and s1: "js '' '' \<noteq> []" and s2: "js '','' \<noteq> []"
    by (simp_all add: js_def)
  have v1: "(let (result, hasErrors) =
               decode_parts ?k (if js '' '' = [0x20] then ws_tokens ?e1
                                else filter (\<lambda>t. t \<noteq> []) (split_lit ?e1 (js '' ''))) ([], False)
             in (concat result, hasErrors)) = (js ''ABC'', False)"
    by code_simp
  have v2: "(let (result, hasErrors) =
               decode_parts ?k (if js '','' = [0x20] then ws_tokens ?e2
                                else filter (\<lambda>t. t \<noteq> []) (split_lit ?e2 (js '',''))) ([], False)
             in (concat result, hasErrors)) = (js ''ABC'', False)"
    by code_simp
  note t1 = decodeString_split_tokens [OF e1 k s1]
  note t2 = decodeString_split_tokens [OF e2 k s2]
  have "decodeString ?e1 ?k (js '' '') = (js ''ABC'', False)" using t1 v1 by simp
  moreover have "decodeString ?e2 ?k (js '','') = (js ''ABC'', False)" using t2 v2 by simp
  moreover have "join (js '','') (split_lit ?e2 (js '','')) = ?e2"
    using t2 by blast
  ultimately show ?thesis by blast
qed

section \<open>Encoding and decoding are inverse\<close>

lemma parseInt_toString: "parseInt (toString n) = Some (int n)"
  using parseInt_digits_prefix [of "toString n" "[]"] toString_digits [of n]
  by (simp add: decimal_value_toString)

lemma generateKeyMap_member:
  assumes "c \<in> set K"
  shows "\<exists>n. generateKeyMap K [c] = Some n \<and> 1 \<le> n \<and> n \<le> length K \<and> K ! (n - 1) = c"
proof -
  let ?P = "\<lambda>i. i < length K \<and> K ! i = c"
  from assms have ex: "\<exists>i. ?P i" by (auto simp: in_set_conv_nth)
  define i where "i = (LEAST i. ?P i)"
  have Pi: "?P i" unfolding i_def using ex by (rule LeastI_ex)
  have least: "\<forall>k. 0 \<le> k \<and> k < i \<longrightarrow> K ! k \<noteq> K ! i"
  proof (intro allI impI)
    fix k assume k: "0 \<le> k \<and> k < i"
    then have "\<not> ?P k" unfolding i_def by (auto dest: not_less_Least)
    then show "K ! k \<noteq> K ! i" using k Pi by auto
  qed
  have "keymap_loop K 0 Map.empty [K ! i] = Some (i + 1)"
    using Pi least by (intro keymap_loop_first) simp_all
  then have "generateKeyMap K [c] = Some (i + 1)" using Pi by (simp add: generateKeyMap_def)
  then show ?thesis using Pi by auto
qed

lemma split_ws_run_token:
  "(\<forall>c \<in> set t. \<not> is_ws c) \<Longrightarrow> split_ws_run acc (t @ s) = split_ws_run (acc @ t) s"
  by (induction t arbitrary: acc) simp_all

lemma join_starts:
  "u \<noteq> [] \<Longrightarrow> join sep (u # us) \<noteq> [] \<and> hd (join sep (u # us)) = hd u"
  by (cases us) simp_all

lemma split_ws_join:
  "ts \<noteq> [] \<Longrightarrow> (\<forall>t \<in> set ts. t \<noteq> [] \<and> (\<forall>c \<in> set t. \<not> is_ws c))
   \<Longrightarrow> split_ws_run [] (join [0x20] ts) = ts"
proof (induction ts)
  case Nil
  then show ?case by simp
next
  case (Cons t ts)
  have tfree: "\<forall>c \<in> set t. \<not> is_ws c" using Cons.prems by simp
  show ?case
  proof (cases ts)
    case Nil
    then show ?thesis using split_ws_run_token [OF tfree, of "[]" "[]"] by simp
  next
    case (Cons u us)
    let ?J = "join [0x20] (u # us)"
    have u: "u \<noteq> []" "\<not> is_ws (hd u)" using Cons.prems(2) Cons by auto
    then have J: "?J \<noteq> []" "\<not> is_ws (hd ?J)" using join_starts [of u "[0x20]" us] by auto
    then have dw: "dropWhile is_ws ?J = ?J" by (cases ?J) auto
    have ih: "split_ws_run [] ?J = u # us" using Cons.IH Cons.prems Cons by simp
    have "split_ws_run [] (t @ 0x20 # ?J) = split_ws_run t (0x20 # ?J)"
      using split_ws_run_token [OF tfree, of "[]" "0x20 # ?J"] by simp
    also have "\<dots> = t # split_ws_run [] (dropWhile is_ws ?J)" by (simp add: is_ws_def)
    finally show ?thesis using dw ih Cons by simp
  qed
qed

lemma split_string_token:
  "sep \<noteq> [] \<Longrightarrow> \<not> is_digit (hd sep) \<Longrightarrow> (\<forall>c \<in> set t. is_digit c)
   \<Longrightarrow> split_string sep acc (t @ s) = split_string sep (acc @ t) s"
proof (induction t arbitrary: acc)
  case Nil
  show ?case by simp
next
  case (Cons c t)
  from Cons.prems obtain x xs where sep: "sep = x # xs" by (cases sep) auto
  have "x \<noteq> c" using Cons.prems sep by auto
  then have "\<not> prefix sep (c # t @ s)" using sep by simp
  then have "split_string sep acc ((c # t) @ s) = split_string sep (acc @ [c]) (t @ s)"
    by simp
  also have "\<dots> = split_string sep ((acc @ [c]) @ t) s"
    using Cons.IH [of "acc @ [c]"] Cons.prems by simp
  finally show ?case by simp
qed

lemma split_string_at_separator:
  "sep \<noteq> [] \<Longrightarrow> split_string sep acc (sep @ s) = acc # split_string sep [] s"
proof -
  assume "sep \<noteq> []"
  then obtain x xs where sep: "sep = x # xs" by (cases sep) auto
  have "split_string sep acc (x # (xs @ s))
        = acc # split_string sep [] (drop (length sep) (x # (xs @ s)))"
    using sep by simp
  then show ?thesis using sep by simp
qed

lemma split_string_join:
  "sep \<noteq> [] \<Longrightarrow> \<not> is_digit (hd sep) \<Longrightarrow> ts \<noteq> [] \<Longrightarrow> (\<forall>t \<in> set ts. \<forall>c \<in> set t. is_digit c)
   \<Longrightarrow> split_string sep [] (join sep ts) = ts"
proof (induction ts)
  case Nil
  then show ?case by simp
next
  case (Cons t ts)
  have td: "\<forall>c \<in> set t. is_digit c" using Cons.prems by simp
  show ?case
  proof (cases ts)
    case Nil
    then show ?thesis
      using split_string_token [OF Cons.prems(1,2) td, of "[]" "[]"] by simp
  next
    case (Cons u us)
    let ?J = "join sep (u # us)"
    have ih: "split_string sep [] ?J = u # us" using Cons.IH Cons.prems Cons by simp
    have "split_string sep [] (t @ sep @ ?J) = split_string sep t (sep @ ?J)"
      using split_string_token [OF Cons.prems(1,2) td, of "[]" "sep @ ?J"] by simp
    also have "\<dots> = t # split_string sep [] ?J"
      using Cons.prems(1) by (rule split_string_at_separator)
    finally show ?thesis using ih Cons by simp
  qed
qed

lemma key_token_member:
  assumes "c \<in> set K"
  shows "key_token K c \<noteq> [] \<and> list_all is_digit (key_token K c)
         \<and> token_piece K (key_token K c) = [c] \<and> \<not> token_error K (key_token K c)"
proof -
  from generateKeyMap_member [OF assms] obtain n where
    n: "generateKeyMap K [c] = Some n" "1 \<le> n" "n \<le> length K" "K ! (n - 1) = c" by blast
  have t: "key_token K c = toString n" using n by (simp add: key_token_def)
  have "nat (int n - 1) = n - 1" by simp
  then show ?thesis
    unfolding t using n toString_digits [of n]
    by (simp add: token_piece_def token_error_def parseInt_toString)
qed

lemma decode_key_tokens:
  assumes "set I \<subseteq> set K"
  shows "decode_parts K (map (key_token K) I) ([], False) = (map (\<lambda>c. [c]) I, False)"
proof -
  have ne: "filter (\<lambda>t. t \<noteq> []) (map (key_token K) I) = map (key_token K) I"
    using assms key_token_member by (auto simp: filter_id_conv)
  have pc: "map (token_piece K) (map (key_token K) I) = map (\<lambda>c. [c]) I"
    using assms key_token_member by auto
  have er: "\<not> (\<exists>t \<in> set (map (key_token K) I). t \<noteq> [] \<and> token_error K t)"
    using assms key_token_member by auto
  show ?thesis unfolding decode_parts_tokens ne pc using er by simp
qed

lemma concat_units: "concat (map (\<lambda>c. [c]) I) = I"
  by (induction I) simp_all

lemma round_trip_any_key:
  assumes "set I \<subseteq> set K" and "sep \<noteq> []" and "\<forall>c \<in> set sep. \<not> is_digit c"
  shows "fst (decodeString (fst (encodeString toString I (generateKeyMap K) sep)) K sep) = I
         \<and> \<not> snd (encodeString toString I (generateKeyMap K) sep)
         \<and> \<not> snd (decodeString (fst (encodeString toString I (generateKeyMap K) sep)) K sep)"
proof (cases "I = []")
  case True
  then show ?thesis by (simp add: encodeString_def decodeString_def)
next
  case False
  let ?ts = "map (key_token K) I"
  have K: "K \<noteq> []" using False assms(1) by auto
  have mapped: "\<not> (\<exists>c \<in> set I. generateKeyMap K [c] = None \<and> \<not> is_ws c)"
    using assms(1) generateKeyMap_member by fastforce
  have enc: "encodeString toString I (generateKeyMap K) sep = (join sep ?ts, False)"
    using False mapped by (simp add: encodeString_def encode_loop_tokens key_token_def [abs_def])
  have ts: "?ts \<noteq> []" using False by simp
  have dig: "\<forall>t \<in> set ?ts. t \<noteq> [] \<and> (\<forall>c \<in> set t. is_digit c)"
    using assms(1) key_token_member by (auto simp: list_all_iff)
  obtain c I' where I: "I = c # I'" using False by (cases I) auto
  have "key_token K c \<noteq> []" using dig I by simp
  then have J: "join sep ?ts \<noteq> []" using join_starts [of "key_token K c" sep "map (key_token K) I'"] I
    by simp
  have hd: "\<not> is_digit (hd sep)" using assms(2,3) by (cases sep) auto
  have parts: "(if sep = [0x20] then split_ws (join sep ?ts) else split_lit (join sep ?ts) sep) = ?ts"
  proof (cases "sep = [0x20]")
    case True
    have "\<forall>t \<in> set ?ts. t \<noteq> [] \<and> (\<forall>c \<in> set t. \<not> is_ws c)"
      using dig digit_not_ws by blast
    then show ?thesis using True ts by (simp add: split_ws_def split_ws_join)
  next
    case False
    have "\<forall>t \<in> set ?ts. \<forall>c \<in> set t. is_digit c" using dig by blast
    then show ?thesis
      using False ts assms(2) hd by (simp add: split_lit_def split_string_join)
  qed
  have dec: "decodeString (join sep ?ts) K sep = (I, False)"
    using J K assms(2) parts decode_key_tokens [OF assms(1)]
    by (simp add: decodeString_def Let_def concat_units)
  show ?thesis by (simp add: enc dec)
qed

text \<open>
  C1. For every key without repeated characters, every input made of characters of the
  key and every non-empty separator without a decimal digit in it, decoding the encoded
  input with the same key and separator gives the input back; neither direction raises
  its flag. (The proof of the lemma above does not use that the key has no repeated
  character: the map keeps the first position of a character, and the key holds that
  character there.)
\<close>

theorem encode_decode_round_trip:
  assumes "distinct K" and "set I \<subseteq> set K" and "sep \<noteq> []" and "\<forall>c \<in> set sep. \<not> is_digit c"
  shows "fst (decodeString (fst (encodeString toString I (generateKeyMap K) sep)) K sep) = I
         \<and> \<not> snd (encodeString toString I (generateKeyMap K) sep)
         \<and> \<not> snd (decodeString (fst (encodeString toString I (generateKeyMap K) sep)) K sep)"
  using assms(2-4) by (rule round_trip_any_key)

theorem encode_decode_round_trip_witness:
  "decodeString (fst (encodeString toString (js ''HELLO/='') (generateKeyMap PRESETS_BASE64) (js '' ''))) PRESETS_BASE64 (js '' '')
     = (js ''HELLO/='', False)
   \<and> fst (encodeString toString (js ''HELLO/='') (generateKeyMap PRESETS_BASE64) (js '' '')) = js ''8 5 12 12 15 64 65''"
proof -
  have d: "distinct PRESETS_BASE64" by code_simp
  have i: "set (js ''HELLO/='') \<subseteq> set PRESETS_BASE64" by code_simp
  have s: "js '' '' \<noteq> []" by (simp add: js_def)
  have n: "\<forall>c \<in> set (js '' ''). \<not> is_digit c" by code_simp
  have e: "fst (encodeString toString (js ''HELLO/='') (generateKeyMap PRESETS_BASE64) (js '' '')) = js ''8 5 12 12 15 64 65''"
    by code_simp
  from encode_decode_round_trip [OF d i s n] e show ?thesis
    by (simp add: prod_eq_iff)
qed

end
